theory Spec2Isabelle
  imports Complex_Main "HOL-Library.Multiset"
begin

section \<open>Data model (schema.ts)\<close>

text \<open>
  A \<open>Date\<close> is a reading of the clock in milliseconds. Every \<open>new Date()\<close> of the source
  is an explicit argument of the operation that performs it. Nullable columns are options.
  Ids, ratings and counters are JavaScript numbers holding integers; they are modelled
  as unbounded integers, and an average as a real number.
\<close>

type_synonym Date = int

text \<open>
  \<open>User\<close> (\<open>users.$inferSelect\<close>) and \<open>UpsertUser\<close> (\<open>users.$inferInsert\<close>) have the same
  columns; the insert type only makes the nullable ones optional.
\<close>

record User =
  user_id :: string
  email :: "string option"
  firstName :: "string option"
  lastName :: "string option"
  profileImageUrl :: "string option"
  user_createdAt :: "Date option"
  updatedAt :: "Date option"

type_synonym UpsertUser = User

record InsertHotel =
  name :: string
  location :: string
  latitude :: string
  longitude :: string

record Hotel = InsertHotel +
  hotel_id :: int
  hotel_createdAt :: "Date option"

record InsertReview =
  hotelId :: int
  rating :: int
  comment :: string
  videoUrl :: string

record Review = InsertReview +
  review_id :: int
  userId :: string
  review_createdAt :: "Date option"
  likes :: "int option"
  comments :: "int option"

text \<open>\<open>Review & { user: User }\<close> and \<open>Review & { user: User, hotel: Hotel }\<close>.\<close>

record ReviewWithUser = Review +
  user :: User

record ReviewWithUserHotel = ReviewWithUser +
  hotel :: Hotel

record HotelWithReviews = Hotel +
  hotelReviews :: "ReviewWithUser list"
  averageRating :: real
  reviewCount :: nat

record Destination =
  dest_name :: string
  dest_reviewCount :: nat
  imageUrl :: string
  topHotels :: "HotelWithReviews list"

section \<open>JavaScript library functions used by the store\<close>

subsection \<open>\<open>Map\<close>: an association list in insertion order\<close>

text \<open>
  \<open>Map.prototype.set\<close> overwrites the value of a present key where it stands and appends
  a new key at the end; \<open>values()\<close> and \<open>entries()\<close> iterate in that order.
\<close>

type_synonym ('k, 'v) js_map = "('k \<times> 'v) list"

fun map_set :: "('k, 'v) js_map \<Rightarrow> 'k \<Rightarrow> 'v \<Rightarrow> ('k, 'v) js_map" where
  "map_set [] k v = [(k, v)]"
| "map_set ((k', v') # m) k v = (if k' = k then (k, v) # m else (k', v') # map_set m k v)"

fun map_get :: "('k, 'v) js_map \<Rightarrow> 'k \<Rightarrow> 'v option" where
  "map_get [] k = None"
| "map_get ((k', v') # m) k = (if k' = k then Some v' else map_get m k)"

definition map_has :: "('k, 'v) js_map \<Rightarrow> 'k \<Rightarrow> bool" where
  "map_has m k = (map_get m k \<noteq> None)"

definition map_values :: "('k, 'v) js_map \<Rightarrow> 'v list" where
  "map_values m = map snd m"

definition map_keys :: "('k, 'v) js_map \<Rightarrow> 'k list" where
  "map_keys m = map fst m"

subsection \<open>\<open>Array.prototype.sort\<close>, \<open>slice\<close>, \<open>find\<close>, \<open>reduce\<close>\<close>

text \<open>
  \<open>sort\<close> is stable: \<open>a\<close> stays before \<open>b\<close> unless the comparator is positive on
  \<open>(a, b)\<close>. Each element is inserted in front of the sorted rest of the array.
\<close>

fun sort_insert :: "('a \<Rightarrow> 'a \<Rightarrow> 'n::{zero,linorder}) \<Rightarrow> 'a \<Rightarrow> 'a list \<Rightarrow> 'a list" where
  "sort_insert cmp x [] = [x]"
| "sort_insert cmp x (y # ys) =
     (if cmp x y \<le> 0 then x # y # ys else y # sort_insert cmp x ys)"

fun js_sort :: "('a \<Rightarrow> 'a \<Rightarrow> 'n::{zero,linorder}) \<Rightarrow> 'a list \<Rightarrow> 'a list" where
  "js_sort cmp [] = []"
| "js_sort cmp (x # xs) = sort_insert cmp x (js_sort cmp xs)"

text \<open>
  \<open>xs.slice(0, end)\<close> for an integer \<open>end\<close>: a negative \<open>end\<close> counts from the end of
  the array. (\<open>NaN\<close>, which \<open>slice\<close> reads as 0, is not represented.)
\<close>

definition slice0 :: "int \<Rightarrow> 'a list \<Rightarrow> 'a list" where
  "slice0 end xs =
     (if end < 0 then take (nat (max (int (length xs) + end) 0)) xs
      else take (nat (min end (int (length xs)))) xs)"

text \<open>
  \<open>toLowerCase\<close> and \<open>encodeURIComponent\<close> on strings of bytes: the letters \<open>A\<close> to \<open>Z\<close>
  are lowered and every other byte is kept; a byte outside the unreserved set
  \<open>A-Z a-z 0-9 - _ . ! ~ * ' ( )\<close> is written as \<open>%\<close> and two hexadecimal digits.
\<close>

definition lower_char :: "char \<Rightarrow> char" where
  "lower_char c =
     (let n = (of_char c :: nat) in if 65 \<le> n \<and> n \<le> 90 then char_of (n + 32) else c)"

definition toLowerCase :: "string \<Rightarrow> string" where
  "toLowerCase s = map lower_char s"

definition hex_digit :: "nat \<Rightarrow> char" where
  "hex_digit n = ''0123456789ABCDEF'' ! (n mod 16)"

definition unreserved :: "char \<Rightarrow> bool" where
  "unreserved c =
     (let n = (of_char c :: nat) in
        (65 \<le> n \<and> n \<le> 90) \<or> (97 \<le> n \<and> n \<le> 122) \<or> (48 \<le> n \<and> n \<le> 57)
        \<or> c \<in> set ''-_.!~*'()'')"

definition encodeURIComponent :: "string \<Rightarrow> string" where
  "encodeURIComponent s =
     concat (map (\<lambda>c. if unreserved c then [c]
                       else [CHR ''%'', hex_digit (of_char c div 16), hex_digit (of_char c)]) s)"

section \<open>The in-memory store (storage.ts)\<close>

record MemStorage =
  users :: "(string, User) js_map"
  hotels :: "(int, Hotel) js_map"
  reviews :: "(int, Review) js_map"
  hotelIdCounter :: int
  reviewIdCounter :: int

text \<open>The constructor.\<close>

definition new_MemStorage :: MemStorage where
  "new_MemStorage =
     \<lparr>users = [], hotels = [], reviews = [], hotelIdCounter = 1, reviewIdCounter = 1\<rparr>"

text \<open>
  A thrown \<open>Error\<close>; the constructor carries what the message interpolates
  (\<open>User ${review.userId} not found\<close>, \<open>Hotel ${review.hotelId} not found\<close>).
\<close>

datatype error = UserNotFound string | HotelNotFound int

text \<open>\<open>xs.map(f)\<close> and a \<open>for\<close> loop pushing \<open>f x\<close>, where \<open>f\<close> may throw: the first throw ends it.\<close>

fun traverse :: "('a \<Rightarrow> error + 'b) \<Rightarrow> 'a list \<Rightarrow> error + 'b list" where
  "traverse f [] = Inr []"
| "traverse f (x # xs) =
     (case f x of
        Inl e \<Rightarrow> Inl e
      | Inr y \<Rightarrow> (case traverse f xs of Inl e \<Rightarrow> Inl e | Inr ys \<Rightarrow> Inr (y # ys)))"

subsection \<open>User operations\<close>

definition getUser :: "MemStorage \<Rightarrow> string \<Rightarrow> User option" where
  "getUser s i = map_get (users s) i"

text \<open>
  \<open>tc\<close> is the clock read for \<open>createdAt\<close> (read only when the id is new), \<open>tu\<close> the one
  read for \<open>updatedAt\<close>.
\<close>

definition upsertUser :: "MemStorage \<Rightarrow> UpsertUser \<Rightarrow> Date \<Rightarrow> Date \<Rightarrow> MemStorage \<times> User" where
  "upsertUser s userData tc tu =
     (let user = userData\<lparr>
            user_createdAt :=
              (case map_get (users s) (user_id userData) of
                 Some old \<Rightarrow> user_createdAt old
               | None \<Rightarrow> Some tc),
            updatedAt := Some tu\<rparr>
      in (s\<lparr>users := map_set (users s) (user_id userData) user\<rparr>, user))"

subsection \<open>Hotel operations\<close>

definition getHotels :: "MemStorage \<Rightarrow> Hotel list" where
  "getHotels s = map_values (hotels s)"

definition getHotel :: "MemStorage \<Rightarrow> int \<Rightarrow> Hotel option" where
  "getHotel s i = map_get (hotels s) i"

text \<open>The predicate that \<open>getHotelByName\<close> passes to \<open>find\<close>.\<close>

definition same_name_location :: "string \<Rightarrow> string \<Rightarrow> Hotel \<Rightarrow> bool" where
  "same_name_location nm loc h =
     (toLowerCase (name h) = toLowerCase nm \<and>
      toLowerCase (location h) = toLowerCase loc)"

definition getHotelByName :: "MemStorage \<Rightarrow> string \<Rightarrow> string \<Rightarrow> Hotel option" where
  "getHotelByName s nm loc = find (same_name_location nm loc) (map_values (hotels s))"

definition createHotel :: "MemStorage \<Rightarrow> InsertHotel \<Rightarrow> Date \<Rightarrow> MemStorage \<times> Hotel" where
  "createHotel s hotelData now =
     (let i = hotelIdCounter s;
          s1 = s\<lparr>hotelIdCounter := i + 1\<rparr>;
          hotel = InsertHotel.extend hotelData (Hotel.fields i (Some now))
      in (s1\<lparr>hotels := map_set (hotels s1) i hotel\<rparr>, hotel))"

subsection \<open>Review operations\<close>

definition getReviews :: "MemStorage \<Rightarrow> Review list" where
  "getReviews s = map_values (reviews s)"

text \<open>The comparator \<open>(a, b) => b.rating - a.rating\<close>.\<close>

definition by_rating_desc :: "('a InsertReview_scheme) \<Rightarrow> ('a InsertReview_scheme) \<Rightarrow> int" where
  "by_rating_desc a b = rating b - rating a"

definition with_user :: "MemStorage \<Rightarrow> Review \<Rightarrow> error + ReviewWithUser" where
  "with_user s review =
     (case map_get (users s) (userId review) of
        None \<Rightarrow> Inl (UserNotFound (userId review))
      | Some u \<Rightarrow> Inr (Review.extend review (ReviewWithUser.fields u)))"

definition getReviewsByHotel :: "MemStorage \<Rightarrow> int \<Rightarrow> error + ReviewWithUser list" where
  "getReviewsByHotel s h =
     traverse (with_user s)
       (js_sort by_rating_desc (filter (\<lambda>review. hotelId review = h) (map_values (reviews s))))"

definition with_user_hotel :: "MemStorage \<Rightarrow> Review \<Rightarrow> error + ReviewWithUserHotel" where
  "with_user_hotel s review =
     (case map_get (users s) (userId review) of
        None \<Rightarrow> Inl (UserNotFound (userId review))
      | Some u \<Rightarrow>
          (case map_get (hotels s) (hotelId review) of
             None \<Rightarrow> Inl (HotelNotFound (hotelId review))
           | Some h \<Rightarrow>
               Inr (ReviewWithUser.extend (Review.extend review (ReviewWithUser.fields u))
                     (ReviewWithUserHotel.fields h))))"

text \<open>
  The parameter \<open>limit: number = 10\<close>: \<open>None\<close> is a call without the argument. The
  routes pass \<open>parseInt\<close> of the query string unchecked, so a limit may be negative.
\<close>

definition limit_or_default :: "int option \<Rightarrow> int" where
  "limit_or_default limit = (case limit of None \<Rightarrow> 10 | Some l \<Rightarrow> l)"

definition getTopReviews :: "MemStorage \<Rightarrow> int option \<Rightarrow> error + ReviewWithUserHotel list" where
  "getTopReviews s limit =
     traverse (with_user_hotel s)
       (slice0 (limit_or_default limit) (js_sort by_rating_desc (map_values (reviews s))))"

definition createReview ::
  "MemStorage \<Rightarrow> InsertReview \<Rightarrow> string \<Rightarrow> Date \<Rightarrow> MemStorage \<times> Review" where
  "createReview s reviewData uid now =
     (let i = reviewIdCounter s;
          s1 = s\<lparr>reviewIdCounter := i + 1\<rparr>;
          review = InsertReview.extend reviewData (Review.fields i uid (Some now) (Some 0) (Some 0))
      in (s1\<lparr>reviews := map_set (reviews s1) i review\<rparr>, review))"

subsection \<open>Hotels with their reviews\<close>

text \<open>
  The block that \<open>getHotelsWithReviews\<close>, \<open>getHotelWithReviews\<close> and \<open>getTopDestinations\<close>
  each repeat: the average of the ratings (\<open>reduce\<close> from \<open>0\<close>, or \<open>0\<close> for no review)
  and the record \<open>{...hotel, reviews, averageRating, reviewCount}\<close>.
\<close>

definition averageRating_of :: "ReviewWithUser list \<Rightarrow> real" where
  "averageRating_of rs =
     (if length rs > 0
      then real_of_int (foldl (\<lambda>sum review. sum + rating review) 0 rs) / real (length rs)
      else 0)"

definition withReviews :: "Hotel \<Rightarrow> ReviewWithUser list \<Rightarrow> HotelWithReviews" where
  "withReviews h rs =
     Hotel.extend h (HotelWithReviews.fields rs (averageRating_of rs) (length rs))"

definition getHotelsWithReviews :: "MemStorage \<Rightarrow> error + HotelWithReviews list" where
  "getHotelsWithReviews s =
     traverse (\<lambda>h. case getReviewsByHotel s (hotel_id h) of
                      Inl e \<Rightarrow> Inl e
                    | Inr rs \<Rightarrow> Inr (withReviews h rs))
              (getHotels s)"

definition getHotelWithReviews :: "MemStorage \<Rightarrow> int \<Rightarrow> error + HotelWithReviews option" where
  "getHotelWithReviews s i =
     (case getHotel s i of
        None \<Rightarrow> Inr None
      | Some h \<Rightarrow>
          (case getReviewsByHotel s i of
             Inl e \<Rightarrow> Inl e
           | Inr rs \<Rightarrow> Inr (Some (withReviews h rs))))"

subsection \<open>Destination operations\<close>

text \<open>
  Grouping the hotels by location. A new location is first set to the empty array, so
  the \<open>get\<close> that follows always finds one.
\<close>

definition group_step :: "(string, Hotel list) js_map \<Rightarrow> Hotel \<Rightarrow> (string, Hotel list) js_map" where
  "group_step m h =
     (let loc = location h;
          m1 = (if \<not> map_has m loc then map_set m loc [] else m)
      in case map_get m1 loc of
           Some hs \<Rightarrow> map_set m1 loc (hs @ [h])
         | None \<Rightarrow> m1)"

definition hotelsByLocation :: "MemStorage \<Rightarrow> (string, Hotel list) js_map" where
  "hotelsByLocation s = foldl group_step [] (map_values (hotels s))"

text \<open>The inner loop over the hotels of one location: \<open>totalReviews\<close> and \<open>hotelsWithReviews\<close>.\<close>

fun location_loop ::
  "MemStorage \<Rightarrow> Hotel list \<Rightarrow> nat \<Rightarrow> HotelWithReviews list \<Rightarrow> error + (nat \<times> HotelWithReviews list)" where
  "location_loop s [] totalReviews hotelsWithReviews = Inr (totalReviews, hotelsWithReviews)"
| "location_loop s (h # hs) totalReviews hotelsWithReviews =
     (case getReviewsByHotel s (hotel_id h) of
        Inl e \<Rightarrow> Inl e
      | Inr rs \<Rightarrow>
          location_loop s hs (totalReviews + length rs) (hotelsWithReviews @ [withReviews h rs]))"

text \<open>The comparators \<open>b.averageRating - a.averageRating\<close> and \<open>b.reviewCount - a.reviewCount\<close>.\<close>

definition by_average_desc :: "HotelWithReviews \<Rightarrow> HotelWithReviews \<Rightarrow> real" where
  "by_average_desc a b = averageRating b - averageRating a"

definition by_count_desc :: "Destination \<Rightarrow> Destination \<Rightarrow> int" where
  "by_count_desc a b = int (dest_reviewCount b) - int (dest_reviewCount a)"

definition destination_of :: "string \<Rightarrow> nat \<Rightarrow> HotelWithReviews list \<Rightarrow> Destination" where
  "destination_of loc totalReviews hotelsWithReviews =
     \<lparr>dest_name = loc,
      dest_reviewCount = totalReviews,
      imageUrl = ''https://source.unsplash.com/random/400x250/?'' @ encodeURIComponent loc,
      topHotels = slice0 3 (js_sort by_average_desc hotelsWithReviews)\<rparr>"

text \<open>The outer loop over the locations, with the \<open>continue\<close> for a location without reviews.\<close>

fun destinations_loop ::
  "MemStorage \<Rightarrow> (string \<times> Hotel list) list \<Rightarrow> Destination list \<Rightarrow> error + Destination list" where
  "destinations_loop s [] destinations = Inr destinations"
| "destinations_loop s ((loc, locationHotels) # rest) destinations =
     (case location_loop s locationHotels 0 [] of
        Inl e \<Rightarrow> Inl e
      | Inr (totalReviews, hotelsWithReviews) \<Rightarrow>
          if totalReviews = 0 then destinations_loop s rest destinations
          else destinations_loop s rest
                 (destinations @ [destination_of loc totalReviews hotelsWithReviews]))"

definition getTopDestinations :: "MemStorage \<Rightarrow> int option \<Rightarrow> error + Destination list" where
  "getTopDestinations s limit =
     (case destinations_loop s (hotelsByLocation s) [] of
        Inl e \<Rightarrow> Inl e
      | Inr destinations \<Rightarrow>
          Inr (slice0 (limit_or_default limit) (js_sort by_count_desc destinations)))"

section \<open>The interface \<open>IStorage\<close> as a state machine\<close>

datatype call =
    GetUser string
  | UpsertUser UpsertUser Date Date
  | GetHotels
  | GetHotel int
  | GetHotelByName string string
  | CreateHotel InsertHotel Date
  | GetHotelsWithReviews
  | GetHotelWithReviews int
  | GetReviews
  | GetReviewsByHotel int
  | GetTopReviews "int option"
  | CreateReview InsertReview string Date
  | GetTopDestinations "int option"

datatype reply =
    AUser "User option"
  | AHotel "Hotel option"
  | AHotels "Hotel list"
  | AHotelsWithReviews "HotelWithReviews list"
  | AHotelWithReviews "HotelWithReviews option"
  | AReview Review
  | AReviews "Review list"
  | AReviewsWithUser "ReviewWithUser list"
  | ATopReviews "ReviewWithUserHotel list"
  | ADestinations "Destination list"

definition returning :: "('a \<Rightarrow> reply) \<Rightarrow> error + 'a \<Rightarrow> error + reply" where
  "returning k r = (case r of Inl e \<Rightarrow> Inl e | Inr x \<Rightarrow> Inr (k x))"

text \<open>
  One call of a method on the store: the store after the call, and what the promise
  settles to (\<open>Inl\<close> a rejection). Only the three writing methods assign to a field.
\<close>

fun exec :: "MemStorage \<Rightarrow> call \<Rightarrow> MemStorage \<times> (error + reply)" where
  "exec s (GetUser i) = (s, Inr (AUser (getUser s i)))"
| "exec s (UpsertUser d tc tu) = (let (s', u) = upsertUser s d tc tu in (s', Inr (AUser (Some u))))"
| "exec s GetHotels = (s, Inr (AHotels (getHotels s)))"
| "exec s (GetHotel i) = (s, Inr (AHotel (getHotel s i)))"
| "exec s (GetHotelByName nm loc) = (s, Inr (AHotel (getHotelByName s nm loc)))"
| "exec s (CreateHotel d now) = (let (s', h) = createHotel s d now in (s', Inr (AHotel (Some h))))"
| "exec s GetHotelsWithReviews = (s, returning AHotelsWithReviews (getHotelsWithReviews s))"
| "exec s (GetHotelWithReviews i) = (s, returning AHotelWithReviews (getHotelWithReviews s i))"
| "exec s GetReviews = (s, Inr (AReviews (getReviews s)))"
| "exec s (GetReviewsByHotel h) = (s, returning AReviewsWithUser (getReviewsByHotel s h))"
| "exec s (GetTopReviews limit) = (s, returning ATopReviews (getTopReviews s limit))"
| "exec s (CreateReview d uid now) =
     (let (s', r) = createReview s d uid now in (s', Inr (AReview r)))"
| "exec s (GetTopDestinations limit) = (s, returning ADestinations (getTopDestinations s limit))"

fun run :: "MemStorage \<Rightarrow> call list \<Rightarrow> MemStorage" where
  "run s [] = s"
| "run s (c # cs) = run (fst (exec s c)) cs"

section \<open>The route \<open>POST /api/hotels\<close> (registerRoutes)\<close>



section \<open>Notions used in the properties\<close>

text \<open>A sequence of hotel creations, and one of review creations, with what each returns.\<close>

fun createHotels :: "MemStorage \<Rightarrow> (InsertHotel \<times> Date) list \<Rightarrow> MemStorage \<times> Hotel list" where
  "createHotels s [] = (s, [])"
| "createHotels s ((d, now) # ds) =
     (let (s1, h) = createHotel s d now; (s2, hs) = createHotels s1 ds in (s2, h # hs))"

fun createReviews ::
  "MemStorage \<Rightarrow> (InsertReview \<times> string \<times> Date) list \<Rightarrow> MemStorage \<times> Review list" where
  "createReviews s [] = (s, [])"
| "createReviews s ((d, uid, now) # ds) =
     (let (s1, r) = createReview s d uid now; (s2, rs) = createReviews s1 ds in (s2, r # rs))"

text \<open>The number of stored reviews of the hotels at a location, summed over these hotels.\<close>

definition total_reviews :: "MemStorage \<Rightarrow> string \<Rightarrow> nat" where
  "total_reviews s loc =
     sum_list (map (\<lambda>h. length (filter (\<lambda>r. hotelId r = hotel_id h) (getReviews s)))
                   (filter (\<lambda>h. location h = loc) (getHotels s)))"

text \<open>Every entry is stored under its own id, below the counter that assigns it.\<close>

definition store_inv :: "MemStorage \<Rightarrow> bool" where
  "store_inv s =
     (list_all (\<lambda>(k, h). hotel_id h = k \<and> k < hotelIdCounter s) (hotels s) \<and>
      list_all (\<lambda>(k, r). review_id r = k \<and> k < reviewIdCounter s) (reviews s) \<and>
      list_all (\<lambda>(k, u). user_id u = k) (users s))"


subsection \<open>Sample data\<close>

definition grand :: InsertHotel where
  "grand = \<lparr>name = ''Grand'', location = ''Paris'', latitude = ''48.8'', longitude = ''2.3''\<rparr>"

definition grand_upper :: InsertHotel where
  "grand_upper = \<lparr>name = ''GRAND'', location = ''PARIS'', latitude = ''48.8'', longitude = ''2.3''\<rparr>"

definition ritz :: InsertHotel where
  "ritz = \<lparr>name = ''Ritz'', location = ''Rome'', latitude = ''41.9'', longitude = ''12.5''\<rparr>"

definition plaza :: InsertHotel where
  "plaza = \<lparr>name = ''Plaza'', location = ''Oslo'', latitude = ''59.9'', longitude = ''10.7''\<rparr>"


definition u1 :: UpsertUser where
  "u1 = \<lparr>user_id = ''U1'', email = None, firstName = Some ''Ann'', lastName = None,
         profileImageUrl = None, user_createdAt = None, updatedAt = None\<rparr>"

definition u1_again :: UpsertUser where
  "u1_again = u1\<lparr>email := Some ''ann@example.org''\<rparr>"

definition review_of :: "int \<Rightarrow> int \<Rightarrow> InsertReview" where
  "review_of h r = \<lparr>hotelId = h, rating = r, comment = ''great'', videoUrl = ''v1''\<rparr>"

text \<open>
  Two hotels in Paris and Rome with reviews by a known user, and one in Oslo without
  reviews.
\<close>

definition sample_store :: MemStorage where
  "sample_store =
     run new_MemStorage
       [CreateHotel grand 100, UpsertUser u1 101 101, CreateReview (review_of 1 5) ''U1'' 102,
        CreateReview (review_of 1 3) ''U1'' 103, CreateHotel ritz 104,
        CreateReview (review_of 2 4) ''U1'' 105, CreateHotel plaza 106]"

text \<open>The same store after a review by a user who was never stored.\<close>

definition dangling_store :: MemStorage where
  "dangling_store = run sample_store [CreateReview (review_of 2 1) ''U2'' 107]"







section \<open>Properties of the library functions\<close>

lemma map_get_set: "map_get (map_set m k v) k' = (if k' = k then Some v else map_get m k')"
  by (induction m) auto

lemma map_get_None_iff: "map_get m k = None \<longleftrightarrow> k \<notin> set (map_keys m)"
  by (induction m) (force simp: map_keys_def)+

lemma map_get_mem: "map_get m k = Some v \<Longrightarrow> (k, v) \<in> set m"
  by (induction m) (auto split: if_splits)

lemma map_get_distinct: "distinct (map_keys m) \<Longrightarrow> (k, v) \<in> set m \<Longrightarrow> map_get m k = Some v"
  by (induction m) (auto simp: map_keys_def rev_image_eqI)

lemma map_set_fresh: "k \<notin> set (map_keys m) \<Longrightarrow> map_set m k v = m @ [(k, v)]"
  by (induction m) (auto simp: map_keys_def)

lemma map_keys_set:
  "map_keys (map_set m k v) = (if k \<in> set (map_keys m) then map_keys m else map_keys m @ [k])"
  by (induction m) (force simp: map_keys_def)+

lemma set_map_set: "set (map_set m k v) \<subseteq> insert (k, v) (set m)"
  by (induction m) (auto split: if_splits)

lemma mset_sort_insert: "mset (sort_insert cmp x xs) = add_mset x (mset xs)"
  by (induction xs) auto

lemma mset_js_sort: "mset (js_sort cmp xs) = mset xs"
  by (induction xs) (auto simp: mset_sort_insert)

lemma set_js_sort: "set (js_sort cmp xs) = set xs"
  by (metis mset_js_sort set_mset_mset)

lemma length_js_sort: "length (js_sort cmp xs) = length xs"
  by (metis mset_js_sort size_mset)

lemma sorted_sort_insert:
  fixes key :: "'a \<Rightarrow> 'k::linorder"
  assumes "\<And>a b. cmp a b \<le> 0 \<longleftrightarrow> key b \<le> key a"
    and "sorted_wrt (\<lambda>a b. key b \<le> key a) xs"
  shows "sorted_wrt (\<lambda>a b. key b \<le> key a) (sort_insert cmp x xs)"
  using assms(2)
proof (induction xs)
  case Nil
  then show ?case by simp
next
  case (Cons y ys)
  show ?case
  proof (cases "cmp x y \<le> 0")
    case True
    then have "key y \<le> key x" using assms(1) by blast
    with Cons.prems True show ?thesis by (auto intro: order_trans)
  next
    case False
    then have "key x \<le> key y" using assms(1) linear by blast
    with Cons False show ?thesis
      by (auto simp: mset_sort_insert simp flip: set_mset_mset)
  qed
qed

lemma sorted_js_sort:
  fixes key :: "'a \<Rightarrow> 'k::linorder"
  assumes "\<And>a b. cmp a b \<le> 0 \<longleftrightarrow> key b \<le> key a"
  shows "sorted_wrt (\<lambda>a b. key b \<le> key a) (js_sort cmp xs)"
proof (induction xs)
  case Nil
  then show ?case by simp
next
  case (Cons x xs)
  then show ?case using sorted_sort_insert [of cmp key "js_sort cmp xs" x] assms by simp
qed

lemma sorted_wrt_take: "sorted_wrt P xs \<Longrightarrow> sorted_wrt P (take n xs)"
  by (metis append_take_drop_id sorted_wrt_append)

lemma slice0_take: "\<exists>n. slice0 l xs = take n xs"
  by (auto simp: slice0_def)

lemma length_slice0: "0 \<le> l \<Longrightarrow> int (length (slice0 l xs)) \<le> l"
  by (auto simp: slice0_def)

lemma slice0_nonneg: "0 \<le> l \<Longrightarrow> slice0 l xs = take (nat l) xs"
  by (auto simp: slice0_def min_def)

lemma traverse_Inr_iff: "traverse f xs = Inr ys \<longleftrightarrow> list_all2 (\<lambda>x y. f x = Inr y) xs ys"
proof (induction xs arbitrary: ys)
  case Nil
  then show ?case by auto
next
  case (Cons x xs)
  show ?case
    by (auto simp: list_all2_Cons1 Cons.IH [symmetric] split: sum.splits)
qed

lemma traverse_Inl_iff: "isl (traverse f xs) \<longleftrightarrow> (\<exists>x\<in>set xs. isl (f x))"
  by (induction xs) (auto split: sum.splits)

lemma list_all_map_set:
  "list_all P m \<Longrightarrow> P (k, v) \<Longrightarrow> list_all P (map_set m k v)"
  using set_map_set [of m k v] by (auto simp: list_all_iff)

lemma filter_key_map_set:
  "distinct (map_keys m) \<Longrightarrow> filter (\<lambda>kv. fst kv = k) (map_set m k v) = [(k, v)]"
proof (induction m)
  case Nil
  then show ?case by simp
next
  case (Cons p m)
  have "k \<notin> fst ` set m \<Longrightarrow> filter (\<lambda>kv. fst kv = k) m = []"
    by (auto simp: filter_empty_conv)
  with Cons show ?case by (cases p) (auto simp: map_keys_def)
qed

lemma distinct_map_set: "distinct (map_keys m) \<Longrightarrow> distinct (map_keys (map_set m k v))"
  by (simp add: map_keys_set)

lemma set_slice0: "set (slice0 l xs) \<subseteq> set xs"
  using slice0_take [of l xs] by (auto dest: in_set_takeD)

lemma sorted_wrt_slice0: "sorted_wrt P xs \<Longrightarrow> sorted_wrt P (slice0 l xs)"
  using slice0_take [of l xs] by (auto simp: sorted_wrt_take)

lemma traverse_map:
  "traverse f xs = Inr ys \<Longrightarrow> (\<And>x y. f x = Inr y \<Longrightarrow> g y = x) \<Longrightarrow> map g ys = xs"
proof (induction xs arbitrary: ys)
  case Nil
  then show ?case by simp
next
  case (Cons x xs)
  then show ?case by (auto split: sum.splits)
qed

lemma traverse_all:
  "traverse f xs = Inr ys \<Longrightarrow> (\<And>x y. f x = Inr y \<Longrightarrow> P y) \<Longrightarrow> list_all P ys"
proof (induction xs arbitrary: ys)
  case Nil
  then show ?case by simp
next
  case (Cons x xs)
  then show ?case by (auto split: sum.splits)
qed

section \<open>Properties of the store\<close>




subsection \<open>Identifiers\<close>

lemma createHotel_id:
  "createHotel s d now = (s', h) \<Longrightarrow>
     hotel_id h = hotelIdCounter s \<and> hotelIdCounter s' = hotelIdCounter s + 1"
  by (auto simp: createHotel_def Let_def InsertHotel.extend_def Hotel.fields_def)

lemma createReview_id:
  "createReview s d uid now = (s', r) \<Longrightarrow>
     review_id r = reviewIdCounter s \<and> reviewIdCounter s' = reviewIdCounter s + 1"
  by (auto simp: createReview_def Let_def InsertReview.extend_def Review.fields_def)

lemma createHotels_ids:
  "map hotel_id (snd (createHotels s ds)) =
     [hotelIdCounter s .. hotelIdCounter s + int (length ds) - 1]"
proof (induction ds arbitrary: s)
  case Nil
  then show ?case by simp
next
  case (Cons p ds)
  obtain d now where p: "p = (d, now)" by (cases p)
  obtain s1 h where c: "createHotel s d now = (s1, h)" by (cases "createHotel s d now")
  have "[hotelIdCounter s .. hotelIdCounter s + int (length (p # ds)) - 1] =
        hotelIdCounter s # [hotelIdCounter s + 1 .. hotelIdCounter s + 1 + int (length ds) - 1]"
    by (subst upto_rec1) (simp_all add: add.commute add.left_commute)
  then show ?case
    using Cons.IH [of s1] createHotel_id [OF c] by (cases "createHotels s1 ds") (simp add: p c)
qed

lemma createReviews_ids:
  "map review_id (snd (createReviews s ds)) =
     [reviewIdCounter s .. reviewIdCounter s + int (length ds) - 1]"
proof (induction ds arbitrary: s)
  case Nil
  then show ?case by simp
next
  case (Cons p ds)
  obtain d uid now where p: "p = (d, uid, now)" by (cases p)
  obtain s1 r where c: "createReview s d uid now = (s1, r)"
    by (cases "createReview s d uid now")
  have "[reviewIdCounter s .. reviewIdCounter s + int (length (p # ds)) - 1] =
        reviewIdCounter s # [reviewIdCounter s + 1 .. reviewIdCounter s + 1 + int (length ds) - 1]"
    by (subst upto_rec1) (simp_all add: add.commute add.left_commute)
  then show ?case
    using Cons.IH [of s1] createReview_id [OF c] by (cases "createReviews s1 ds") (simp add: p c)
qed

lemma upto_from_1:
  "distinct [1 .. n] \<and> sorted_wrt (<) [1 .. n] \<and> list_all (\<lambda>i. 0 < i) [1 .. n]"
  by (auto simp: list_all_iff strict_sorted_iff)

text \<open>
  C7. On a fresh store, the ids assigned by a sequence of N hotel creations are
  1, 2, ..., N in the order of creation, hence N distinct positive integers that
  increase strictly, starting from the initial counter 1; and likewise for a sequence
  of review creations.
\<close>

theorem created_ids_count_from_1:
  "map hotel_id (snd (createHotels new_MemStorage ds)) = [1 .. int (length ds)]
   \<and> distinct (map hotel_id (snd (createHotels new_MemStorage ds)))
   \<and> sorted_wrt (<) (map hotel_id (snd (createHotels new_MemStorage ds)))
   \<and> list_all (\<lambda>i. 0 < i) (map hotel_id (snd (createHotels new_MemStorage ds)))
   \<and> map review_id (snd (createReviews new_MemStorage rs)) = [1 .. int (length rs)]
   \<and> distinct (map review_id (snd (createReviews new_MemStorage rs)))
   \<and> sorted_wrt (<) (map review_id (snd (createReviews new_MemStorage rs)))
   \<and> list_all (\<lambda>i. 0 < i) (map review_id (snd (createReviews new_MemStorage rs)))"
proof -
  have h: "map hotel_id (snd (createHotels new_MemStorage ds)) = [1 .. int (length ds)]"
    using createHotels_ids [of new_MemStorage ds] by (simp add: new_MemStorage_def)
  have r: "map review_id (snd (createReviews new_MemStorage rs)) = [1 .. int (length rs)]"
    using createReviews_ids [of new_MemStorage rs] by (simp add: new_MemStorage_def)
  show ?thesis
    unfolding h r using upto_from_1 [of "int (length ds)"] upto_from_1 [of "int (length rs)"]
    by simp
qed

theorem created_ids_count_from_1_witness:
  "map hotel_id (snd (createHotels new_MemStorage [(grand, 100), (grand_upper, 101), (ritz, 102)]))
     = [1, 2, 3]
   \<and> map review_id (snd (createReviews new_MemStorage
        [(review_of 1 5, ''U1'', 100), (review_of 1 3, ''U2'', 101)])) = [1, 2]"
proof -
  have "[1 .. int (length [(grand, 100::int), (grand_upper, 101), (ritz, 102)])] = [1, 2, 3]"
    by code_simp
  moreover have
    "[1 .. int (length [(review_of 1 5, ''U1'', 100::int), (review_of 1 3, ''U2'', 101)])] = [1, 2]"
    by code_simp
  ultimately show ?thesis
    using created_ids_count_from_1 [of "[(grand, 100), (grand_upper, 101), (ritz, 102)]"
        "[(review_of 1 5, ''U1'', 100), (review_of 1 3, ''U2'', 101)]"]
    by simp
qed

subsection \<open>Reading and writing methods\<close>



lemma store_inv_exec: "store_inv s \<Longrightarrow> store_inv (fst (exec s c))"
proof (cases c)
  case (UpsertUser d tc tu)
  assume inv: "store_inv s"
  then have "list_all (\<lambda>(k, u). user_id u = k) (map_set (users s) (user_id d) (snd (upsertUser s d tc tu)))"
    by (intro list_all_map_set) (simp_all add: store_inv_def upsertUser_def Let_def)
  with inv show ?thesis
    by (simp add: UpsertUser store_inv_def upsertUser_def Let_def)
next
  case (CreateHotel d now)
  assume inv: "store_inv s"
  let ?h = "InsertHotel.extend d (Hotel.fields (hotelIdCounter s) (Some now))"
  have id: "hotel_id ?h = hotelIdCounter s"
    by (simp add: InsertHotel.extend_def Hotel.fields_def)
  from inv have "list_all (\<lambda>(k, h). hotel_id h = k \<and> k < hotelIdCounter s + 1) (hotels s)"
    by (auto simp: store_inv_def list_all_iff)
  then have "list_all (\<lambda>(k, h). hotel_id h = k \<and> k < hotelIdCounter s + 1)
               (map_set (hotels s) (hotelIdCounter s) ?h)"
    by (rule list_all_map_set) (simp add: id)
  with inv show ?thesis
    by (simp add: CreateHotel store_inv_def createHotel_def Let_def)
next
  case (CreateReview d uid now)
  assume inv: "store_inv s"
  let ?r = "InsertReview.extend d (Review.fields (reviewIdCounter s) uid (Some now) (Some 0) (Some 0))"
  have id: "review_id ?r = reviewIdCounter s"
    by (simp add: InsertReview.extend_def Review.fields_def)
  from inv have "list_all (\<lambda>(k, r). review_id r = k \<and> k < reviewIdCounter s + 1) (reviews s)"
    by (auto simp: store_inv_def list_all_iff)
  then have "list_all (\<lambda>(k, r). review_id r = k \<and> k < reviewIdCounter s + 1)
               (map_set (reviews s) (reviewIdCounter s) ?r)"
    by (rule list_all_map_set) (simp add: id)
  with inv show ?thesis
    by (simp add: CreateReview store_inv_def createReview_def Let_def)
qed simp_all

lemma store_inv_run: "store_inv s \<Longrightarrow> store_inv (run s cs)"
  by (induction cs arbitrary: s) (simp_all add: store_inv_exec)

text \<open>
  C10. In every store reached from a fresh one by a sequence of method calls, each
  hotel is stored under its own id, which is below \<open>hotelIdCounter\<close>; each review is
  stored under its own id, which is below \<open>reviewIdCounter\<close>; each user is stored under
  its own id. Every method call preserves this.
\<close>

theorem store_inv_reachable:
  "store_inv (run new_MemStorage cs) \<and> (store_inv s \<longrightarrow> store_inv (fst (exec s c)))"
proof -
  have "store_inv new_MemStorage"
    by (simp add: store_inv_def new_MemStorage_def)
  then show ?thesis
    using store_inv_run store_inv_exec by blast
qed

theorem store_inv_reachable_witness:
  "store_inv sample_store \<and> store_inv (fst (exec sample_store (CreateHotel grand_upper 200)))"
proof -
  let ?cs = "[CreateHotel grand 100, UpsertUser u1 101 101, CreateReview (review_of 1 5) ''U1'' 102,
        CreateReview (review_of 1 3) ''U1'' 103, CreateHotel ritz 104,
        CreateReview (review_of 2 4) ''U1'' 105, CreateHotel plaza 106]"
  have "store_inv (run new_MemStorage ?cs)"
    and "store_inv (run new_MemStorage ?cs) \<longrightarrow>
         store_inv (fst (exec (run new_MemStorage ?cs) (CreateHotel grand_upper 200)))"
    using store_inv_reachable [of ?cs "run new_MemStorage ?cs" "CreateHotel grand_upper 200"]
    by blast+
  then show ?thesis unfolding sample_store_def by blast
qed

text \<open>
  C8. \<open>upsertUser\<close> stores and returns the given user with \<open>createdAt\<close> taken from
  the user stored under that id before, or read from the clock when there was none, and
  with \<open>updatedAt\<close> read from the clock. A second upsert of the same id keeps the
  \<open>createdAt\<close> of the first, refreshes \<open>updatedAt\<close>, and leaves exactly one entry under
  that id, at the place of the first; hotels, reviews and counters are untouched.
\<close>

theorem upsertUser_keeps_createdAt:
  assumes "upsertUser s d tc tu = (s1, v1)"
    and "user_id d' = user_id d"
    and "upsertUser s1 d' tc' tu' = (s2, v2)"
  shows "user_createdAt v1 =
           (case getUser s (user_id d) of Some old \<Rightarrow> user_createdAt old | None \<Rightarrow> Some tc)
       \<and> updatedAt v1 = Some tu
       \<and> v1 = d\<lparr>user_createdAt := user_createdAt v1, updatedAt := Some tu\<rparr>
       \<and> getUser s1 (user_id d) = Some v1
       \<and> s1 = s\<lparr>users := users s1\<rparr>
       \<and> user_createdAt v2 = user_createdAt v1
       \<and> updatedAt v2 = Some tu'
       \<and> getUser s2 (user_id d) = Some v2
       \<and> map_keys (users s2) = map_keys (users s1)
       \<and> (distinct (map_keys (users s)) \<longrightarrow>
            filter (\<lambda>kv. fst kv = user_id d) (users s2) = [(user_id d, v2)])"
proof -
  have v1: "v1 = d\<lparr>user_createdAt :=
              (case map_get (users s) (user_id d) of Some old \<Rightarrow> user_createdAt old | None \<Rightarrow> Some tc),
              updatedAt := Some tu\<rparr>"
    and s1: "s1 = s\<lparr>users := map_set (users s) (user_id d) v1\<rparr>"
    using assms(1) by (auto simp: upsertUser_def Let_def)
  have get1: "map_get (users s1) (user_id d) = Some v1"
    by (subst s1) (simp add: map_get_set)
  have v2: "v2 = d'\<lparr>user_createdAt := user_createdAt v1, updatedAt := Some tu'\<rparr>"
    and s2: "s2 = s1\<lparr>users := map_set (users s1) (user_id d) v2\<rparr>"
    using assms(3) get1 by (auto simp: upsertUser_def Let_def assms(2))
  have in1: "user_id d \<in> set (map_keys (users s1))"
    using get1 map_get_None_iff [of "users s1" "user_id d"] by auto
  have keys: "map_keys (users s2) = map_keys (users s1)"
    by (subst s2) (simp add: map_keys_set in1)
  have one: "filter (\<lambda>kv. fst kv = user_id d) (users s2) = [(user_id d, v2)]"
    if "distinct (map_keys (users s))"
  proof -
    have "distinct (map_keys (users s1))"
      by (subst s1) (simp add: distinct_map_set that)
    then show ?thesis
      by (subst s2) (simp add: filter_key_map_set)
  qed
  have "user_createdAt v1 =
           (case getUser s (user_id d) of Some old \<Rightarrow> user_createdAt old | None \<Rightarrow> Some tc)"
    by (subst v1) (simp add: getUser_def)
  moreover have "updatedAt v1 = Some tu" by (subst v1) simp
  moreover have "v1 = d\<lparr>user_createdAt := user_createdAt v1, updatedAt := Some tu\<rparr>"
    by (subst (1 2) v1) simp
  moreover have "s1 = s\<lparr>users := users s1\<rparr>" by (subst (1 2) s1) simp
  moreover have "user_createdAt v2 = user_createdAt v1" by (subst v2) simp
  moreover have "updatedAt v2 = Some tu'" by (subst v2) simp
  moreover have "getUser s2 (user_id d) = Some v2"
    by (subst s2) (simp add: getUser_def map_get_set)
  ultimately show ?thesis
    using get1 keys one by (simp add: getUser_def)
qed

theorem upsertUser_keeps_createdAt_witness:
  "user_createdAt (snd (upsertUser new_MemStorage u1 101 102)) = Some 101
   \<and> updatedAt (snd (upsertUser new_MemStorage u1 101 102)) = Some 102
   \<and> user_createdAt (snd (upsertUser (fst (upsertUser new_MemStorage u1 101 102)) u1_again 200 201))
       = Some 101
   \<and> updatedAt (snd (upsertUser (fst (upsertUser new_MemStorage u1 101 102)) u1_again 200 201))
       = Some 201
   \<and> map_keys (users (fst (upsertUser (fst (upsertUser new_MemStorage u1 101 102)) u1_again 200 201)))
       = [''U1'']
   \<and> filter (\<lambda>kv. fst kv = ''U1'')
        (users (fst (upsertUser (fst (upsertUser new_MemStorage u1 101 102)) u1_again 200 201)))
       = [(''U1'', snd (upsertUser (fst (upsertUser new_MemStorage u1 101 102)) u1_again 200 201))]"
proof -
  let ?s1 = "fst (upsertUser new_MemStorage u1 101 102)"
  let ?v1 = "snd (upsertUser new_MemStorage u1 101 102)"
  let ?s2 = "fst (upsertUser ?s1 u1_again 200 201)"
  let ?v2 = "snd (upsertUser ?s1 u1_again 200 201)"
  have a: "upsertUser new_MemStorage u1 101 102 = (?s1, ?v1)" by simp
  have b: "user_id u1_again = user_id u1" by (simp add: u1_again_def)
  have c: "upsertUser ?s1 u1_again 200 201 = (?s2, ?v2)" by simp
  have new: "getUser new_MemStorage (user_id u1) = None"
    by (simp add: getUser_def new_MemStorage_def)
  have keys: "map_keys (users ?s1) = [''U1'']" by code_simp
  have dist: "distinct (map_keys (users new_MemStorage))"
    by (simp add: new_MemStorage_def map_keys_def)
  have id: "user_id u1 = ''U1''" by (simp add: u1_def)
  show ?thesis
    using upsertUser_keeps_createdAt [OF a b c] new keys dist id by simp
qed

subsection \<open>Hydrating reviews\<close>

lemma with_user_Inr:
  "with_user s r = Inr x \<Longrightarrow>
     Review.truncate x = r \<and> getUser s (userId r) = Some (user x) \<and> rating x = rating r"
  by (auto simp: with_user_def getUser_def Review.truncate_def Review.extend_def
      ReviewWithUser.fields_def split: option.splits)

lemma with_user_isl: "isl (with_user s r) \<longleftrightarrow> getUser s (userId r) = None"
  by (auto simp: with_user_def getUser_def split: option.splits)

lemma with_user_hotel_Inr:
  "with_user_hotel s r = Inr x \<Longrightarrow>
     Review.truncate x = r \<and> getUser s (userId r) = Some (user x) \<and>
     getHotel s (hotelId r) = Some (hotel x) \<and>
     rating x = rating r \<and> userId x = userId r \<and> hotelId x = hotelId r"
  by (auto simp: with_user_hotel_def getUser_def getHotel_def Review.truncate_def
      Review.extend_def ReviewWithUser.extend_def ReviewWithUser.fields_def
      ReviewWithUserHotel.fields_def split: option.splits)

lemma with_user_hotel_isl:
  "isl (with_user_hotel s r) \<longleftrightarrow>
     getUser s (userId r) = None \<or> getHotel s (hotelId r) = None"
  by (auto simp: with_user_hotel_def getUser_def getHotel_def split: option.splits)

lemma by_rating_desc_le: "by_rating_desc a b \<le> 0 \<longleftrightarrow> rating b \<le> rating a"
  by (simp add: by_rating_desc_def)

lemma find_None_set: "find P xs = None \<longleftrightarrow> \<not> (\<exists>x\<in>set xs. P x)"
  by (auto simp: find_None_iff)

text \<open>
  C2. \<open>getReviewsByHotel\<close> throws exactly when some stored review of the hotel names a
  user that is not stored, and \<open>getTopReviews\<close> exactly when some review among those it
  selects names a user or a hotel that is not stored. When they return, every review they
  had to hydrate is in the result, in order: none is skipped. The lookups \<open>getUser\<close>,
  \<open>getHotel\<close> and \<open>getHotelByName\<close> have no throwing outcome and answer \<open>None\<close>
  exactly when nothing is stored under the key.
\<close>

theorem hydration_throws_iff_missing:
  "(isl (getReviewsByHotel s h) \<longleftrightarrow>
      (\<exists>r \<in> set (getReviews s). hotelId r = h \<and> getUser s (userId r) = None))
   \<and> (isl (getTopReviews s limit) \<longleftrightarrow>
      (\<exists>r \<in> set (slice0 (limit_or_default limit) (js_sort by_rating_desc (getReviews s))).
         getUser s (userId r) = None \<or> getHotel s (hotelId r) = None))
   \<and> (getReviewsByHotel s h = Inr rs \<longrightarrow>
        map Review.truncate rs =
          js_sort by_rating_desc (filter (\<lambda>r. hotelId r = h) (getReviews s)))
   \<and> (getTopReviews s limit = Inr ts \<longrightarrow>
        map Review.truncate ts =
          slice0 (limit_or_default limit) (js_sort by_rating_desc (getReviews s)))
   \<and> (getUser s i = None \<longleftrightarrow> i \<notin> set (map_keys (users s)))
   \<and> (getHotel s j = None \<longleftrightarrow> j \<notin> set (map_keys (hotels s)))
   \<and> (getHotelByName s nm loc = None \<longleftrightarrow>
        \<not> (\<exists>g \<in> set (getHotels s). same_name_location nm loc g))"
proof -
  have a: "isl (getReviewsByHotel s h) \<longleftrightarrow>
      (\<exists>r \<in> set (getReviews s). hotelId r = h \<and> getUser s (userId r) = None)"
    by (auto simp: getReviewsByHotel_def getReviews_def traverse_Inl_iff with_user_isl
        set_js_sort)
  have b: "isl (getTopReviews s limit) \<longleftrightarrow>
      (\<exists>r \<in> set (slice0 (limit_or_default limit) (js_sort by_rating_desc (getReviews s))).
         getUser s (userId r) = None \<or> getHotel s (hotelId r) = None)"
    by (simp add: getTopReviews_def getReviews_def traverse_Inl_iff with_user_hotel_isl)
  have c: "map Review.truncate rs =
          js_sort by_rating_desc (filter (\<lambda>r. hotelId r = h) (getReviews s))"
    if "getReviewsByHotel s h = Inr rs"
    using that unfolding getReviewsByHotel_def getReviews_def
    by (rule traverse_map) (simp add: with_user_Inr)
  have d: "map Review.truncate ts =
          slice0 (limit_or_default limit) (js_sort by_rating_desc (getReviews s))"
    if "getTopReviews s limit = Inr ts"
    using that unfolding getTopReviews_def getReviews_def
    by (rule traverse_map) (simp add: with_user_hotel_Inr)
  have e: "getUser s i = None \<longleftrightarrow> i \<notin> set (map_keys (users s))"
    by (simp add: getUser_def map_get_None_iff)
  have f: "getHotel s j = None \<longleftrightarrow> j \<notin> set (map_keys (hotels s))"
    by (simp add: getHotel_def map_get_None_iff)
  have g: "getHotelByName s nm loc = None \<longleftrightarrow>
        \<not> (\<exists>g \<in> set (getHotels s). same_name_location nm loc g)"
    by (simp add: getHotelByName_def getHotels_def find_None_set)
  show ?thesis using a b c d e f g by blast
qed

theorem hydration_throws_iff_missing_witness:
  "isl (getReviewsByHotel dangling_store 2)
   \<and> isl (getTopReviews dangling_store None)
   \<and> \<not> isl (getTopReviews dangling_store (Some 3))
   \<and> \<not> isl (getReviewsByHotel dangling_store 1)
   \<and> map review_id (projr (getReviewsByHotel dangling_store 1)) = [1, 2]
   \<and> map review_id (projr (getTopReviews dangling_store (Some 3))) = [1, 3, 2]
   \<and> getUser dangling_store ''U2'' = None
   \<and> getHotel dangling_store 7 = None
   \<and> getHotelByName dangling_store ''Savoy'' ''London'' = None"
proof -
  have 1: "\<exists>r \<in> set (getReviews dangling_store).
             hotelId r = 2 \<and> getUser dangling_store (userId r) = None"
    by code_simp
  have 2: "\<exists>r \<in> set (slice0 (limit_or_default None)
                        (js_sort by_rating_desc (getReviews dangling_store))).
             getUser dangling_store (userId r) = None \<or> getHotel dangling_store (hotelId r) = None"
    by code_simp
  have 3: "\<not> (\<exists>r \<in> set (slice0 (limit_or_default (Some 3))
                        (js_sort by_rating_desc (getReviews dangling_store))).
             getUser dangling_store (userId r) = None \<or> getHotel dangling_store (hotelId r) = None)"
    by code_simp
  have 4: "\<not> (\<exists>r \<in> set (getReviews dangling_store).
             hotelId r = 1 \<and> getUser dangling_store (userId r) = None)"
    by code_simp
  have 5: "''U2'' \<notin> set (map_keys (users dangling_store))" by code_simp
  have 6: "7 \<notin> set (map_keys (hotels dangling_store))" by code_simp
  have 7: "\<not> (\<exists>g \<in> set (getHotels dangling_store). same_name_location ''Savoy'' ''London'' g)"
    by code_simp
  have 8: "map review_id (projr (getReviewsByHotel dangling_store 1)) = [1, 2]" by code_simp
  have 9: "map review_id (projr (getTopReviews dangling_store (Some 3))) = [1, 3, 2]"
    by code_simp
  have "isl (getReviewsByHotel dangling_store 2)"
    using hydration_throws_iff_missing [of dangling_store 2 None "[]" "[]" "''U2''" 7
        "''Savoy''" "''London''"] 1 by blast
  moreover have "isl (getTopReviews dangling_store None)"
    "getUser dangling_store ''U2'' = None" "getHotel dangling_store 7 = None"
    "getHotelByName dangling_store ''Savoy'' ''London'' = None"
    using hydration_throws_iff_missing [of dangling_store 2 None "[]" "[]" "''U2''" 7
        "''Savoy''" "''London''"] 2 5 6 7 by blast+
  moreover have "\<not> isl (getTopReviews dangling_store (Some 3))"
    "\<not> isl (getReviewsByHotel dangling_store 1)"
    using hydration_throws_iff_missing [of dangling_store 1 "Some 3" "[]" "[]" "''U2''" 7
        "''Savoy''" "''London''"] 3 4 by blast+
  ultimately show ?thesis using 8 9 by blast
qed

subsection \<open>Top reviews\<close>

text \<open>
  C6, as the code has it. \<open>getTopReviews\<close> sorts all stored reviews by rating,
  highest first, and for a limit that is not negative (10 when none is given) takes the
  first \<open>limit\<close> of them; when it returns, the result is these reviews in this order,
  each with the user and the hotel stored under its \<open>userId\<close> and \<open>hotelId\<close>, so it has
  at most \<open>limit\<close> items and is sorted by rating, highest first.
\<close>

theorem getTopReviews_sorted_limited:
  assumes "getTopReviews s limit = Inr ts"
  shows "mset (js_sort by_rating_desc (getReviews s)) = mset (getReviews s)
       \<and> sorted_wrt (\<lambda>a b. rating b \<le> rating a) (js_sort by_rating_desc (getReviews s))
       \<and> (0 \<le> limit_or_default limit \<longrightarrow>
            map Review.truncate ts =
              take (nat (limit_or_default limit)) (js_sort by_rating_desc (getReviews s)))
       \<and> list_all (\<lambda>t. getUser s (userId t) = Some (user t) \<and>
                        getHotel s (hotelId t) = Some (hotel t)) ts
       \<and> (0 \<le> limit_or_default limit \<longrightarrow> int (length ts) \<le> limit_or_default limit)
       \<and> sorted_wrt (\<lambda>a b. rating b \<le> rating a) ts"
proof -
  let ?sorted = "js_sort by_rating_desc (getReviews s)"
  let ?l = "limit_or_default limit"
  have t: "traverse (with_user_hotel s) (slice0 ?l ?sorted) = Inr ts"
    using assms by (simp add: getTopReviews_def getReviews_def)
  have sorted: "sorted_wrt (\<lambda>a b. rating b \<le> rating a) ?sorted"
    by (rule sorted_js_sort) (rule by_rating_desc_le)
  have trunc: "map Review.truncate ts = slice0 ?l ?sorted"
    using t by (rule traverse_map) (simp add: with_user_hotel_Inr)
  have ratings: "map rating ts = map rating (slice0 ?l ?sorted)"
    using t by (auto simp: traverse_Inr_iff list_all2_conv_all_nth with_user_hotel_Inr
        intro!: nth_equalityI)
  have "sorted_wrt (\<lambda>a b. rating b \<le> rating a) (slice0 ?l ?sorted)"
    using sorted by (rule sorted_wrt_slice0)
  then have "sorted_wrt (\<lambda>a b. b \<le> a) (map rating (slice0 ?l ?sorted))"
    by (simp add: sorted_wrt_map)
  then have sorted_ts: "sorted_wrt (\<lambda>a b. rating b \<le> rating a) ts"
    by (simp add: sorted_wrt_map flip: ratings)
  have hyd: "list_all (\<lambda>t. getUser s (userId t) = Some (user t) \<and>
                        getHotel s (hotelId t) = Some (hotel t)) ts"
    using t
  proof (rule traverse_all)
    fix r x
    assume "with_user_hotel s r = Inr x"
    from with_user_hotel_Inr [OF this]
    show "getUser s (userId x) = Some (user x) \<and> getHotel s (hotelId x) = Some (hotel x)"
      by simp
  qed
  have len: "int (length ts) \<le> ?l" if "0 \<le> ?l"
  proof -
    have "length ts = length (slice0 ?l ?sorted)"
      using trunc by (metis length_map)
    then show ?thesis using length_slice0 [OF that, of ?sorted] by simp
  qed
  show ?thesis
    using mset_js_sort [of by_rating_desc "getReviews s"] sorted trunc hyd len sorted_ts
    by (simp add: slice0_nonneg)
qed

theorem getTopReviews_sorted_limited_witness:
  "getTopReviews sample_store (Some 2) = Inr (projr (getTopReviews sample_store (Some 2)))
   \<and> map review_id (projr (getTopReviews sample_store (Some 2))) = [1, 3]
   \<and> map rating (projr (getTopReviews sample_store (Some 2))) = [5, 4]
   \<and> int (length (projr (getTopReviews sample_store (Some 2)))) \<le> 2
   \<and> sorted_wrt (\<lambda>a b. rating b \<le> rating a) (projr (getTopReviews sample_store (Some 2)))"
proof -
  have run: "getTopReviews sample_store (Some 2) = Inr (projr (getTopReviews sample_store (Some 2)))"
    by code_simp
  have ids: "map review_id (projr (getTopReviews sample_store (Some 2))) = [1, 3]"
    by code_simp
  have ratings: "map rating (projr (getTopReviews sample_store (Some 2))) = [5, 4]"
    by code_simp
  show ?thesis
    using getTopReviews_sorted_limited [OF run] run ids ratings
    by (simp add: limit_or_default_def)
qed

text \<open>
  The claim as stated, for every limit, fails at the limit \<open>-1\<close>: of the three reviews
  of the sample store, \<open>slice(0, -1)\<close> keeps all but the last, and two items are
  more than \<open>-1\<close>.
\<close>

theorem getTopReviews_negative_limit_counterexample:
  "\<not> isl (getTopReviews sample_store (Some (- 1)))
   \<and> map review_id (projr (getTopReviews sample_store (Some (- 1)))) = [1, 3]
   \<and> \<not> int (length (projr (getTopReviews sample_store (Some (- 1))))) \<le> - 1"
  by code_simp

subsection \<open>Top destinations\<close>

lemma group_step_get:
  "map_get (group_step m h) loc =
     (if loc = location h
      then Some ((case map_get m loc of None \<Rightarrow> [] | Some g \<Rightarrow> g) @ [h])
      else map_get m loc)"
  by (cases "map_get m (location h)")
    (simp_all add: group_step_def Let_def map_has_def map_get_set)

lemma group_step_distinct:
  "distinct (map_keys m) \<Longrightarrow> distinct (map_keys (group_step m h))"
  by (cases "map_get m (location h)")
    (simp_all add: group_step_def Let_def map_has_def map_get_set distinct_map_set)

lemma groups_get:
  "map_get (foldl group_step [] hs) loc =
     (if filter (\<lambda>h. location h = loc) hs = [] then None
      else Some (filter (\<lambda>h. location h = loc) hs))"
proof (induction hs arbitrary: loc rule: rev_induct)
  case Nil
  then show ?case by simp
next
  case (snoc h hs)
  show ?case
    by (simp add: group_step_get snoc.IH [of "location h"] snoc.IH [of loc])
qed

lemma groups_distinct: "distinct (map_keys (foldl group_step [] hs))"
proof (induction hs rule: rev_induct)
  case Nil
  then show ?case by (simp add: map_keys_def)
next
  case (snoc h hs)
  then show ?case by (simp add: group_step_distinct)
qed

lemma hotelsByLocation_group:
  assumes "(loc, g) \<in> set (hotelsByLocation s)"
  shows "g = filter (\<lambda>h. location h = loc) (getHotels s)"
proof -
  have "map_get (hotelsByLocation s) loc = Some g"
    using assms groups_distinct unfolding hotelsByLocation_def by (intro map_get_distinct)
  then show ?thesis
    by (simp add: hotelsByLocation_def getHotels_def groups_get split: if_splits)
qed

lemma getReviewsByHotel_length:
  "getReviewsByHotel s h = Inr rs \<Longrightarrow>
     length rs = length (filter (\<lambda>r. hotelId r = h) (getReviews s))"
  by (auto simp: getReviewsByHotel_def getReviews_def traverse_Inr_iff length_js_sort
      dest: list_all2_lengthD)

lemma location_loop_total:
  "location_loop s hs cnt acc = Inr (cnt', hws) \<Longrightarrow>
     cnt' = cnt +
       sum_list (map (\<lambda>h. length (filter (\<lambda>r. hotelId r = hotel_id h) (getReviews s))) hs)"
proof (induction hs arbitrary: cnt acc)
  case Nil
  then show ?case by simp
next
  case (Cons h hs)
  from Cons.prems obtain rs where rs: "getReviewsByHotel s (hotel_id h) = Inr rs"
    and rest: "location_loop s hs (cnt + length rs) (acc @ [withReviews h rs]) = Inr (cnt', hws)"
    by (auto split: sum.splits)
  show ?case
    using Cons.IH [OF rest] getReviewsByHotel_length [OF rs] by simp
qed

lemma destinations_loop_mem:
  "destinations_loop s groups acc = Inr ds \<Longrightarrow> d \<in> set ds \<Longrightarrow>
     d \<in> set acc \<or>
     (\<exists>loc g cnt hws. (loc, g) \<in> set groups \<and> location_loop s g 0 [] = Inr (cnt, hws) \<and>
        cnt \<noteq> 0 \<and> d = destination_of loc cnt hws)"
proof (induction s groups acc rule: destinations_loop.induct)
  case (1 s destinations)
  then show ?case by simp
next
  case (2 s loc locationHotels rest destinations)
  show ?case
  proof (cases "location_loop s locationHotels 0 []")
    case (Inl e)
    with "2.prems" show ?thesis by simp
  next
    case (Inr p)
    obtain cnt hws where p: "p = (cnt, hws)" by (cases p)
    show ?thesis
    proof (cases "cnt = 0")
      case True
      with "2.IH"(1) [OF Inr p [symmetric] True] "2.prems" Inr p show ?thesis by auto
    next
      case False
      with "2.IH"(2) [OF Inr p [symmetric] False] "2.prems" Inr p show ?thesis
        by (auto simp del: destinations_loop.simps simp add: destinations_loop.simps(2) [of s loc locationHotels rest destinations])
    qed
  qed
qed

lemma getTopDestinations_mem:
  assumes "getTopDestinations s limit = Inr ds" and "d \<in> set ds"
  shows "dest_reviewCount d = total_reviews s (dest_name d) \<and> dest_reviewCount d \<noteq> 0
       \<and> length (topHotels d) \<le> 3
       \<and> sorted_wrt (\<lambda>a b. averageRating b \<le> averageRating a) (topHotels d)"
proof -
  obtain dests where dests: "destinations_loop s (hotelsByLocation s) [] = Inr dests"
    and ds: "ds = slice0 (limit_or_default limit) (js_sort by_count_desc dests)"
    using assms(1) by (auto simp: getTopDestinations_def split: sum.splits)
  have "d \<in> set dests"
    using assms(2) set_slice0 [of "limit_or_default limit" "js_sort by_count_desc dests"]
    by (auto simp: ds set_js_sort)
  from destinations_loop_mem [OF dests this]
  obtain loc g cnt hws where g: "(loc, g) \<in> set (hotelsByLocation s)"
    and loop: "location_loop s g 0 [] = Inr (cnt, hws)"
    and cnt: "cnt \<noteq> 0" and d: "d = destination_of loc cnt hws"
    by auto
  have "cnt = total_reviews s loc"
    using location_loop_total [OF loop] hotelsByLocation_group [OF g]
    by (simp add: total_reviews_def)
  moreover have "sorted_wrt (\<lambda>a b. averageRating b \<le> averageRating a)
                   (slice0 3 (js_sort by_average_desc hws))"
    by (intro sorted_wrt_slice0 sorted_js_sort) (simp add: by_average_desc_def)
  moreover have "length (slice0 3 (js_sort by_average_desc hws)) \<le> 3"
    using length_slice0 [of 3 "js_sort by_average_desc hws"] by simp
  ultimately show ?thesis
    using cnt by (simp add: d destination_of_def)
qed

text \<open>
  C4. A destination that \<open>getTopDestinations\<close> returns has a review count that is
  the number of reviews of the hotels at its location, summed over these hotels, and
  this number is not 0: a location whose hotels have no review at all is not the name
  of any returned destination.
\<close>

theorem getTopDestinations_skips_unreviewed:
  assumes "getTopDestinations s limit = Inr ds"
  shows "list_all (\<lambda>d. dest_reviewCount d = total_reviews s (dest_name d) \<and>
                       total_reviews s (dest_name d) \<noteq> 0) ds
       \<and> (total_reviews s loc = 0 \<longrightarrow> loc \<notin> dest_name ` set ds)"
proof -
  have "dest_reviewCount d = total_reviews s (dest_name d) \<and> total_reviews s (dest_name d) \<noteq> 0"
    if "d \<in> set ds" for d
    using getTopDestinations_mem [OF assms that] by metis
  then show ?thesis
    unfolding list_all_iff by fastforce
qed

theorem getTopDestinations_skips_unreviewed_witness:
  "getTopDestinations sample_store None = Inr (projr (getTopDestinations sample_store None))
   \<and> length (filter (\<lambda>h. location h = ''Oslo'') (getHotels sample_store)) = 1
   \<and> total_reviews sample_store ''Oslo'' = 0
   \<and> ''Oslo'' \<notin> dest_name ` set (projr (getTopDestinations sample_store None))
   \<and> map dest_name (projr (getTopDestinations sample_store None)) = [''Paris'', ''Rome'']
   \<and> map dest_reviewCount (projr (getTopDestinations sample_store None)) = [2, 1]"
proof -
  have run: "getTopDestinations sample_store None = Inr (projr (getTopDestinations sample_store None))"
    by code_simp
  have oslo: "length (filter (\<lambda>h. location h = ''Oslo'') (getHotels sample_store)) = 1"
    by code_simp
  have zero: "total_reviews sample_store ''Oslo'' = 0" by code_simp
  have names: "map dest_name (projr (getTopDestinations sample_store None)) = [''Paris'', ''Rome'']"
    by code_simp
  have counts: "map dest_reviewCount (projr (getTopDestinations sample_store None)) = [2, 1]"
    by code_simp
  have "''Oslo'' \<notin> dest_name ` set (projr (getTopDestinations sample_store None))"
    using getTopDestinations_skips_unreviewed [OF run, of "''Oslo''"] zero by blast
  then show ?thesis using run oslo zero names counts by blast
qed




subsection \<open>Creating a hotel twice\<close>








end
